theory Spec2Isabelle
  imports Main "HOL-Library.Sublist" "HOL-Library.Multiset"
begin

section \<open>Sliding-window context selection\<close>

text \<open>
  The algorithm is the Python function \<^verbatim>\<open>apply_sliding_window\<close> of the sliding window
  guide:
  \<^verbatim>\<open>
  def apply_sliding_window(messages, max_msgs=20, preserve=2):
      total = len(messages)
      if total <= max_msgs:
          return messages
      preserved = messages[:preserve]
      recent_count = max_msgs - preserve
      recent = messages[-recent_count:]
      result = preserved + recent
      tokens = estimate_tokens(result)
      while tokens > TOKEN_LIMIT and len(result) > preserve + 2:
          middle_index = preserve + (len(result) - preserve) // 2
          removed = result.pop(middle_index)
          tokens -= estimate_tokens([removed])
      return result
  \<close>
  Python integers are unbounded, so \<open>max_msgs\<close>, \<open>preserve\<close> and the token counts are
  \<open>int\<close>. The estimator \<open>estimate_tokens\<close> and the constant \<open>TOKEN_LIMIT\<close> are not
  part of the listing; both are parameters of the model.
\<close>

subsection \<open>Python list primitives\<close>

datatype py_error = IndexError

text \<open>\<^verbatim>\<open>xs[:k]\<close>: a negative bound counts from the end, and bounds are clipped.\<close>

definition slice_to :: "'a list \<Rightarrow> int \<Rightarrow> 'a list" where
  "slice_to xs k = (if k < 0 then take (nat (int (length xs) + k)) xs else take (nat k) xs)"

text \<open>\<^verbatim>\<open>xs[k:]\<close>: likewise. Note that \<^verbatim>\<open>xs[-0:]\<close> is \<^verbatim>\<open>xs[0:]\<close>, the whole list.\<close>

definition slice_from :: "'a list \<Rightarrow> int \<Rightarrow> 'a list" where
  "slice_from xs k = (if k < 0 then drop (nat (int (length xs) + k)) xs else drop (nat k) xs)"

text \<open>
  \<^verbatim>\<open>xs.pop(i)\<close>: a negative index counts from the end; an index outside the list
  raises \<^verbatim>\<open>IndexError\<close>. The result is the removed element and the list without it.
\<close>

definition list_pop :: "'a list \<Rightarrow> int \<Rightarrow> py_error + ('a \<times> 'a list)" where
  "list_pop xs i =
     (let n = int (length xs);
          j = (if i < 0 then i + n else i)
      in if 0 \<le> j \<and> j < n
         then Inr (xs ! nat j, take (nat j) xs @ drop (Suc (nat j)) xs)
         else Inl IndexError)"

lemma list_pop_length:
  "list_pop xs i = Inr (r, ys) \<Longrightarrow> Suc (length ys) = length xs"
  by (auto simp: list_pop_def Let_def split: if_splits)

subsection \<open>The function\<close>

text \<open>The \<^verbatim>\<open>while\<close> loop, on the loop variables \<open>tokens\<close> and \<open>result\<close>.\<close>

function remove_from_middle ::
  "('m list \<Rightarrow> int) \<Rightarrow> int \<Rightarrow> int \<Rightarrow> int \<Rightarrow> 'm list \<Rightarrow> py_error + 'm list" where
  "remove_from_middle estimate_tokens token_limit preserve tokens result =
     (if tokens > token_limit \<and> int (length result) > preserve + 2 then
        (case list_pop result (preserve + (int (length result) - preserve) div 2) of
           Inl e \<Rightarrow> Inl e
         | Inr (removed, result') \<Rightarrow>
             remove_from_middle estimate_tokens token_limit preserve
               (tokens - estimate_tokens [removed]) result')
      else Inr result)"
  by pat_completeness auto
termination
proof (relation "measure (\<lambda>(estimate_tokens, token_limit, preserve, tokens, result). length result)")
  show "wf (measure (\<lambda>(estimate_tokens :: 'm list \<Rightarrow> int, token_limit :: int, preserve :: int,
                       tokens :: int, result :: 'm list). length result))"
    by simp
next
  fix estimate_tokens :: "'m list \<Rightarrow> int" and token_limit preserve tokens :: int
    and result :: "'m list" and x2 :: "'m \<times> 'm list" and removed :: 'm and result' :: "'m list"
  assume "list_pop result (preserve + (int (length result) - preserve) div 2) = Inr x2"
    and "(removed, result') = x2"
  then have "Suc (length result') = length result"
    using list_pop_length [of result _ removed result'] by simp
  then show "((estimate_tokens, token_limit, preserve, tokens - estimate_tokens [removed], result'),
              (estimate_tokens, token_limit, preserve, tokens, result))
             \<in> measure (\<lambda>(estimate_tokens, token_limit, preserve, tokens, result). length result)"
    by simp
qed

declare remove_from_middle.simps [simp del]

definition apply_sliding_window ::
  "('m list \<Rightarrow> int) \<Rightarrow> int \<Rightarrow> 'm list \<Rightarrow> int \<Rightarrow> int \<Rightarrow> py_error + 'm list" where
  "apply_sliding_window estimate_tokens token_limit messages max_msgs preserve =
     (let total = int (length messages) in
      if total \<le> max_msgs then Inr messages
      else
        let preserved = slice_to messages preserve;
            recent_count = max_msgs - preserve;
            recent = slice_from messages (- recent_count);
            result = preserved @ recent;
            tokens = estimate_tokens result
        in remove_from_middle estimate_tokens token_limit preserve tokens result)"

subsection \<open>The context window\<close>

text \<open>
  Modelled from the spec: the \<open>ContextWindow\<close> and the contract
  \<open>select(history, maxMessages, preserveFirst, maxTokens)\<close> around the function. The listing
  returns the message list only; the code that wraps it is not among the sources. The
  window carries the metadata of the algorithm's last step: \<open>kept = len(window)\<close>,
  \<open>removed = len(history) - len(window)\<close>, the estimated tokens of the window, and
  \<open>truncated = removed > 0\<close>. The estimate is taken over the returned list, the only value
  the function hands back. An exception of the function is passed on.
\<close>

record 'm context_window =
  messages :: "'m list"
  considered :: int
  kept :: int
  removed :: int
  estimatedTokens :: int
  truncated :: bool

definition select ::
  "('m list \<Rightarrow> int) \<Rightarrow> 'm list \<Rightarrow> int \<Rightarrow> int \<Rightarrow> int \<Rightarrow> py_error + 'm context_window" where
  "select estimate_tokens history maxMessages preserveFirst maxTokens =
     (case apply_sliding_window estimate_tokens maxTokens history maxMessages preserveFirst of
        Inl e \<Rightarrow> Inl e
      | Inr window \<Rightarrow>
          Inr \<lparr>messages = window,
               considered = int (length history),
               kept = int (length window),
               removed = int (length history) - int (length window),
               estimatedTokens = estimate_tokens window,
               truncated = (int (length history) - int (length window) > 0)\<rparr>)"

subsection \<open>A token estimator for the examples\<close>

text \<open>
  Modelled from the spec: the \<open>TokenEstimator\<close>, whose code is not among the sources, for
  text-only messages. A message is given by its word count; its cost is 1.3 tokens per
  word, rounded up, plus the structural overhead of 4 tokens per message. The theorems
  below hold for every estimator; this one serves the concrete examples.
\<close>

definition estimate :: "nat \<Rightarrow> int" where
  "estimate w = (13 * int w + 9) div 10 + 4"

definition estimate_tokens :: "nat list \<Rightarrow> int" where
  "estimate_tokens ms = sum_list (map estimate ms)"

section \<open>Response cache\<close>

text \<open>
  The response cache lives in \<^verbatim>\<open>services/ai_service.py\<close>, which is not among the sources;
  the improvement summary only records an in-memory cache of 1000 responses with LRU
  eviction and MD5-based keys. The definitions of this section follow the spec.
\<close>

text \<open>
  Modelled from the spec: the \<open>ResponseCache\<close> state, a fixed maximum entry count and the
  entries in order of access, the least recently accessed first (an ordered map).
\<close>

record ('k, 'v) response_cache =
  capacity :: nat
  entries :: "('k \<times> 'v) list"

definition cache_new :: "nat \<Rightarrow> ('k, 'v) response_cache" where
  "cache_new n = \<lparr>capacity = n, entries = []\<rparr>"

text \<open>
  Modelled from the spec: an access, read or write, makes the entry the most recently
  accessed one.
\<close>

definition touch :: "'k \<Rightarrow> 'v \<Rightarrow> ('k \<times> 'v) list \<Rightarrow> ('k \<times> 'v) list" where
  "touch k v es = filter (\<lambda>e. fst e \<noteq> k) es @ [(k, v)]"

text \<open>
  Modelled from the spec: \<open>get(key) -> optional value\<close>. A miss is a normal return value and
  leaves the cache as it is; a hit counts as an access.
\<close>

definition cache_get :: "('k, 'v) response_cache \<Rightarrow> 'k \<Rightarrow> 'v option \<times> ('k, 'v) response_cache" where
  "cache_get c k =
     (case map_of (entries c) k of
        None \<Rightarrow> (None, c)
      | Some v \<Rightarrow> (Some v, c\<lparr>entries := touch k v (entries c)\<rparr>))"

text \<open>
  Modelled from the spec: \<open>put(key, value)\<close>. On insertion beyond capacity the least
  recently accessed entry is evicted.
\<close>

definition cache_put :: "('k, 'v) response_cache \<Rightarrow> 'k \<Rightarrow> 'v \<Rightarrow> ('k, 'v) response_cache" where
  "cache_put c k v =
     (let es = touch k v (entries c)
      in c\<lparr>entries := (if capacity c < length es then tl es else es)\<rparr>)"

text \<open>A sequence of cache operations, run from left to right.\<close>

datatype ('k, 'v) cache_op = Get 'k | Put 'k 'v

fun run :: "('k, 'v) response_cache \<Rightarrow> ('k, 'v) cache_op list \<Rightarrow> ('k, 'v) response_cache" where
  "run c [] = c"
| "run c (Get k # ops) = run (snd (cache_get c k)) ops"
| "run c (Put k v # ops) = run (cache_put c k v) ops"

text \<open>
  The history of accesses of a sequence of operations, oldest first, stated without the
  cache: every write is an access of its key, and so is every read of a key written
  before. \<open>last_access tr k\<close> is the position of the last access of \<open>k\<close> in the history
  \<open>tr\<close>; the least recently accessed key is the one whose last access is the oldest.
\<close>

fun accessed_from :: "'k list \<Rightarrow> ('k, 'v) cache_op list \<Rightarrow> 'k list" where
  "accessed_from tr [] = tr"
| "accessed_from tr (Get k # ops) = accessed_from (if k \<in> set tr then tr @ [k] else tr) ops"
| "accessed_from tr (Put k v # ops) = accessed_from (tr @ [k]) ops"

definition accessed :: "('k, 'v) cache_op list \<Rightarrow> 'k list" where
  "accessed ops = accessed_from [] ops"

fun last_access :: "'k list \<Rightarrow> 'k \<Rightarrow> nat" where
  "last_access [] k = 0"
| "last_access (x # xs) k = (if k \<in> set xs then Suc (last_access xs k) else 0)"

section \<open>Query routing\<close>

text \<open>
  The two pattern lists are those of \<^verbatim>\<open>_should_use_pandasai()\<close> as the README gives them;
  the body of the function is not among the sources.
\<close>

datatype route_class = Simple | Complex

definition simple_patterns :: "string list" where
  "simple_patterns = [''show'', ''preview'', ''display'', ''head'', ''first'', ''rows'', ''columns'',
     ''count'', ''length'', ''size'', ''shape'', ''info'', ''describe'', ''stats'']"

definition complex_patterns :: "string list" where
  "complex_patterns = [''correlation'', ''relationship'', ''pattern'', ''trend'', ''outlier'',
     ''insight'', ''analysis'', ''why'', ''how'', ''what if'', ''predict'', ''group by'',
     ''aggregate'', ''compare'', ''difference'']"

text \<open>
  Modelled from the spec: the normalisation of the query, lower-casing. Strings are byte
  strings here, so only the ASCII letters \<open>A\<close> to \<open>Z\<close> (codes 65 to 90) change.
\<close>

definition lower_char :: "char \<Rightarrow> char" where
  "lower_char c =
     (let n = (of_char c :: nat) in if 65 \<le> n \<and> n \<le> 90 then char_of (n + 32) else c)"

definition lower :: "string \<Rightarrow> string" where
  "lower q = map lower_char q"

text \<open>
  Modelled from the spec: the words of a text, its maximal runs of letters and digits.
  \<open>split_words w cs\<close> reads \<open>cs\<close> with the word \<open>w\<close> begun so far.
\<close>

definition is_word_char :: "char \<Rightarrow> bool" where
  "is_word_char c =
     (let n = (of_char c :: nat)
      in (48 \<le> n \<and> n \<le> 57) \<or> (65 \<le> n \<and> n \<le> 90) \<or> (97 \<le> n \<and> n \<le> 122))"

fun split_words :: "string \<Rightarrow> string \<Rightarrow> string list" where
  "split_words w [] = (if w = [] then [] else [w])"
| "split_words w (c # cs) =
     (if is_word_char c then split_words (w @ [c]) cs
      else if w = [] then split_words [] cs
      else w # split_words [] cs)"

definition words_of :: "string \<Rightarrow> string list" where
  "words_of q = split_words [] q"

text \<open>
  Modelled from the spec: the presence of an indicator term. A term is a keyword or a
  phrase (\<open>what if\<close>, \<open>group by\<close>); it is present in a query when its words occur there as
  consecutive words. The term \<open>how\<close> is present in \<open>how many rows\<close> and not in
  \<open>show me the rows\<close>, which the spec classifies as simple.
\<close>

fun starts_with :: "'a list \<Rightarrow> 'a list \<Rightarrow> bool" where
  "starts_with [] ys = True"
| "starts_with (x # xs) [] = False"
| "starts_with (x # xs) (y # ys) = (x = y \<and> starts_with xs ys)"

fun occurs_in :: "'a list \<Rightarrow> 'a list \<Rightarrow> bool" where
  "occurs_in xs [] = (xs = [])"
| "occurs_in xs (y # ys) = (starts_with xs (y # ys) \<or> occurs_in xs ys)"

definition term_present :: "string \<Rightarrow> string \<Rightarrow> bool" where
  "term_present t q = occurs_in (words_of t) (words_of q)"

text \<open>
  Modelled from the spec: \<open>route(query)\<close>, over the lower-cased query. Any complex term
  classifies the query as complex; otherwise any simple term classifies it as simple; a
  query with neither is complex.
\<close>

definition route :: "string \<Rightarrow> route_class" where
  "route query =
     (let query_lower = lower query in
      if list_ex (\<lambda>t. term_present t query_lower) complex_patterns then Complex
      else if list_ex (\<lambda>t. term_present t query_lower) simple_patterns then Simple
      else Complex)"

subsection \<open>Sampling of large datasets\<close>

text \<open>
  Modelled from the spec: the seeded random sample. \<^verbatim>\<open>_sample_dataframe_if_large()\<close> and the
  sampler it calls are not among the sources. The pseudo-random generator is a parameter:
  \<open>gen\<close> maps a generator state to a drawn number and the next state. Rows are drawn one
  at a time without replacement; the result is the drawn rows and the state the generator
  is left in.
\<close>

fun draw :: "(nat \<Rightarrow> nat \<times> nat) \<Rightarrow> nat \<Rightarrow> nat \<Rightarrow> 'r list \<Rightarrow> 'r list \<times> nat" where
  "draw gen state 0 rows = ([], state)"
| "draw gen state (Suc n) rows =
     (if rows = [] then ([], state)
      else
        let (r, state') = gen state;
            i = r mod length rows;
            (rest, final) = draw gen state' n (take i rows @ drop (Suc i) rows)
        in (rows ! i # rest, final))"

text \<open>
  Modelled from the spec: a dataset over the size threshold (\<open>_max_dataframe_size\<close>, 10000
  by default) is replaced by a fixed-seed sample of the threshold size, and the flag tells
  whether that happened. The generator is state of the process: \<open>rng\<close> is the state the
  call finds it in. Fixed-seed sampling starts the generator again at the seed, whatever
  its state was; a dataset within the threshold leaves the generator alone.
\<close>

definition sample_dataframe_if_large ::
  "(nat \<Rightarrow> nat \<times> nat) \<Rightarrow> nat \<Rightarrow> nat \<Rightarrow> 'r list \<Rightarrow> nat \<Rightarrow> ('r list \<times> bool) \<times> nat" where
  "sample_dataframe_if_large gen seed max_dataframe_size df rng =
     (if max_dataframe_size < length df
      then (let (rows, rng') = draw gen seed max_dataframe_size df in ((rows, True), rng'))
      else ((df, False), rng))"

text \<open>
  Modelled from the spec: the complex path. The dataset is sampled before the AI-driven
  analyzer (a parameter) is called, and the metadata of the result records the sampling
  and the path taken.
\<close>

record 'a analysis_result =
  payload :: 'a
  sampled :: bool
  analyzer_path :: string

definition analyze_complex ::
  "(nat \<Rightarrow> nat \<times> nat) \<Rightarrow> nat \<Rightarrow> nat \<Rightarrow> ('r list \<Rightarrow> string \<Rightarrow> 'a) \<Rightarrow> 'r list \<Rightarrow> string \<Rightarrow> nat
     \<Rightarrow> 'a analysis_result \<times> nat" where
  "analyze_complex gen seed max_dataframe_size analyzer df query rng =
     (let ((df', was_sampled), rng') = sample_dataframe_if_large gen seed max_dataframe_size df rng
      in (\<lparr>payload = analyzer df' query, sampled = was_sampled, analyzer_path = ''pandasai''\<rparr>,
          rng'))"

section \<open>Properties of the sliding window\<close>

subsection \<open>Auxiliary facts\<close>

lemma list_pop_in_range:
  "0 \<le> i \<Longrightarrow> i < int (length xs) \<Longrightarrow>
     list_pop xs i = Inr (xs ! nat i, take (nat i) xs @ drop (Suc (nat i)) xs)"
  by (simp add: list_pop_def Let_def)

lemma subseq_take_drop:
  assumes "a \<le> b"
  shows "subseq (take a xs @ drop b xs) xs"
proof -
  from assms obtain k where "b = k + a"
    by (metis le_add_diff_inverse2)
  then have "drop b xs = drop k (drop a xs)"
    by simp
  then have "subseq (drop b xs) (drop a xs)"
    by (metis sublist_drop sublist_imp_subseq)
  then have "subseq (take a xs @ drop b xs) (take a xs @ drop a xs)"
    by (intro list_emb_append_mono) auto
  then show ?thesis by simp
qed

lemma subseq_remove_nth: "subseq (take j xs @ drop (Suc j) xs) xs"
  by (rule subseq_take_drop) simp

text \<open>
  The loop, for a non-negative \<open>preserve\<close>: the index it pops lies strictly between
  \<open>preserve\<close> and the end of the list, so it never raises, leaves the first \<open>preserve\<close>
  messages alone, only removes messages, and stops at \<open>preserve + 2\<close> messages at the latest.
\<close>

lemma remove_from_middle_props:
  assumes "0 \<le> p"
  shows "\<exists>r. remove_from_middle est lim p t xs = Inr r \<and> subseq r xs \<and>
           take (nat p) r = take (nat p) xs \<and> length r \<le> length xs \<and>
           min (length xs) (nat p + 2) \<le> length r \<and>
           (t \<le> lim \<longrightarrow> r = xs) \<and>
           (lim < t \<and> p + 2 < int (length xs) \<longrightarrow> length r < length xs)"
  using assms
proof (induction est lim p t xs rule: remove_from_middle.induct)
  case (1 est lim p t xs)
  show ?case
  proof (cases "lim < t \<and> p + 2 < int (length xs)")
    case False
    then show ?thesis
      by (subst remove_from_middle.simps) auto
  next
    case True
    define j where "j = p + (int (length xs) - p) div 2"
    have jb: "p < j" "j < int (length xs)"
      using True 1(2) by (auto simp: j_def)
    define ys where "ys = take (nat j) xs @ drop (Suc (nat j)) xs"
    have pop: "list_pop xs j = Inr (xs ! nat j, ys)"
      using jb 1(2) by (simp add: list_pop_in_range ys_def)
    have len: "Suc (length ys) = length xs"
      using pop by (rule list_pop_length)
    have "\<exists>r. remove_from_middle est lim p (t - est [xs ! nat j]) ys = Inr r \<and>
           subseq r ys \<and> take (nat p) r = take (nat p) ys \<and> length r \<le> length ys \<and>
           min (length ys) (nat p + 2) \<le> length r"
      using 1(1) [OF _ pop [unfolded j_def] refl 1(2)] True unfolding j_def by blast
    then obtain r where r: "remove_from_middle est lim p (t - est [xs ! nat j]) ys = Inr r"
      "subseq r ys" "take (nat p) r = take (nat p) ys" "length r \<le> length ys"
      "min (length ys) (nat p + 2) \<le> length r"
      by blast
    have unfold: "remove_from_middle est lim p t xs = Inr r"
      using True pop r(1) by (subst remove_from_middle.simps) (simp add: j_def)
    have "subseq ys xs" unfolding ys_def by (rule subseq_remove_nth)
    with r(2) have s: "subseq r xs" by (rule subseq_order.trans)
    have tk: "take (nat p) ys = take (nat p) xs"
      using jb 1(2) by (simp add: ys_def min_def)
    have "nat p + 2 < length xs"
      using True 1(2) by linarith
    then have "nat p + 2 \<le> length ys"
      using len by linarith
    then have "min (length xs) (nat p + 2) \<le> length r"
      using r(5) by simp
    with unfold s tk r len True show ?thesis by auto
  qed
qed

lemma apply_sliding_window_fits:
  "int (length h) \<le> m \<Longrightarrow> apply_sliding_window est lim h m p = Inr h"
  by (simp add: apply_sliding_window_def)

lemma apply_sliding_window_exceeds:
  "m < int (length h) \<Longrightarrow>
     apply_sliding_window est lim h m p =
       remove_from_middle est lim p (est (slice_to h p @ slice_from h (p - m)))
         (slice_to h p @ slice_from h (p - m))"
  by (simp add: apply_sliding_window_def Let_def)

text \<open>The window before the token check, for \<open>0 \<le> preserve < max_msgs < len(messages)\<close>.\<close>

lemma initial_window_valid:
  assumes "0 \<le> p" "p < m" "m < int (length h)"
  shows "slice_to h p @ slice_from h (p - m) = take (nat p) h @ drop (length h - nat (m - p)) h"
    and "length (slice_to h p @ slice_from h (p - m)) = nat m"
    and "subseq (slice_to h p @ slice_from h (p - m)) h"
proof -
  have eq: "nat (int (length h) + (p - m)) = length h - nat (m - p)"
    using assms by linarith
  show w: "slice_to h p @ slice_from h (p - m) = take (nat p) h @ drop (length h - nat (m - p)) h"
    using assms by (simp add: slice_to_def slice_from_def eq)
  show "length (slice_to h p @ slice_from h (p - m)) = nat m"
    unfolding w using assms by (simp add: min_def) linarith
  have le: "nat p \<le> length h - nat (m - p)"
    using assms by linarith
  then show "subseq (slice_to h p @ slice_from h (p - m)) h"
    unfolding w by (rule subseq_take_drop)
qed

lemma select_Inr:
  "apply_sliding_window est lim h m p = Inr r \<Longrightarrow>
     select est h m p lim =
       Inr \<lparr>messages = r, considered = int (length h), kept = int (length r),
            removed = int (length h) - int (length r), estimatedTokens = est r,
            truncated = (int (length r) < int (length h))\<rparr>"
  by (simp add: select_def)

lemma apply_sliding_window_props:
  assumes "0 \<le> p"
  shows "\<exists>r. apply_sliding_window est lim h m p = Inr r \<and>
           (p < int (length h) \<longrightarrow> take (nat p) r = take (nat p) h) \<and>
           (p < m \<longrightarrow> subseq r h \<and> int (length r) \<le> m)"
proof (cases "int (length h) \<le> m")
  case True
  then show ?thesis
    by (simp add: apply_sliding_window_fits)
next
  case False
  define w where "w = slice_to h p @ slice_from h (p - m)"
  from False have run: "apply_sliding_window est lim h m p = remove_from_middle est lim p (est w) w"
    by (simp add: apply_sliding_window_exceeds w_def)
  from remove_from_middle_props [OF assms, of est lim "est w" w]
  obtain r where r: "remove_from_middle est lim p (est w) w = Inr r" "subseq r w"
    "take (nat p) r = take (nat p) w" "length r \<le> length w"
    by blast
  have pre: "take (nat p) r = take (nat p) h" if "p < int (length h)"
    using that assms r(3) by (simp add: w_def slice_to_def)
  have sub: "subseq r h \<and> int (length r) \<le> m" if "p < m"
  proof -
    from False have lt: "m < int (length h)" by simp
    have "length w = nat m" "subseq w h"
      unfolding w_def
      by (rule initial_window_valid(2) [OF assms that lt], rule initial_window_valid(3) [OF assms that lt])
    moreover from this r(2) have "subseq r h"
      using subseq_order.trans by blast
    moreover have "0 \<le> m"
      using assms that by simp
    ultimately show ?thesis
      using r(4) by simp
  qed
  from run r(1) pre sub show ?thesis by auto
qed

subsection \<open>A history within the message limit\<close>

text \<open>
  Claim C1. If the history has at most \<open>maxMessages\<close> messages, \<open>select\<close> returns the
  history itself, same messages in the same order, with \<open>truncated = false\<close> and nothing
  removed, for every \<open>preserveFirst\<close>, every token budget and every estimator.
\<close>

theorem select_within_limit_unchanged:
  "int (length h) \<le> maxMessages \<Longrightarrow>
     select est h maxMessages preserveFirst maxTokens =
       Inr \<lparr>messages = h, considered = int (length h), kept = int (length h), removed = 0,
            estimatedTokens = est h, truncated = False\<rparr>"
  by (simp add: apply_sliding_window_fits select_Inr)

text \<open>Ten messages under a limit of twenty, with a token budget of zero.\<close>

theorem select_within_limit_unchanged_witness:
  "int (length [12, 7, 3, 25, 8, 14, 6, 30, 9, 11 :: nat]) \<le> 20 \<and>
   select estimate_tokens [12, 7, 3, 25, 8, 14, 6, 30, 9, 11] 20 2 0 =
     Inr \<lparr>messages = [12, 7, 3, 25, 8, 14, 6, 30, 9, 11], considered = 10, kept = 10,
          removed = 0, estimatedTokens = 207, truncated = False\<rparr>"
  using select_within_limit_unchanged [of "[12, 7, 3, 25, 8, 14, 6, 30, 9, 11]" 20 estimate_tokens 2 0]
  by (simp add: estimate_tokens_def estimate_def)

subsection \<open>Order and the preserved prefix\<close>

text \<open>
  Claim C2, as amended. For every history and every configuration with
  \<open>preserveFirst \<ge> 0\<close>, \<open>select\<close> returns a window; whenever the history is longer than
  \<open>preserveFirst\<close>, the first \<open>preserveFirst\<close> messages of the history are the first
  \<open>preserveFirst\<close> messages of the window; and whenever \<open>preserveFirst < maxMessages\<close>, the
  window is a subsequence of the history in the history's order. The function does not
  validate its configuration: the subsequence property is lost for
  \<open>preserveFirst \<ge> maxMessages\<close> and for a negative \<open>preserveFirst\<close>.
\<close>

theorem select_subsequence_and_preserved:
  assumes "0 \<le> preserveFirst"
  shows "\<exists>w. select est h maxMessages preserveFirst maxTokens = Inr w \<and>
           (preserveFirst < int (length h) \<longrightarrow>
              take (nat preserveFirst) (messages w) = take (nat preserveFirst) h) \<and>
           (preserveFirst < maxMessages \<longrightarrow> subseq (messages w) h)"
proof -
  from apply_sliding_window_props [OF assms, of est maxTokens h maxMessages]
  obtain r where r: "apply_sliding_window est maxTokens h maxMessages preserveFirst = Inr r"
    "preserveFirst < int (length h) \<longrightarrow> take (nat preserveFirst) r = take (nat preserveFirst) h"
    "preserveFirst < maxMessages \<longrightarrow> subseq r h"
    by blast
  from select_Inr [OF r(1)] r(2,3) show ?thesis
    by simp
qed

text \<open>The example run of the guide: twelve messages, at most eight, the first two preserved.\<close>

theorem select_subsequence_and_preserved_witness:
  "(0::int) \<le> 2 \<and> 2 < int (length [1, 2, 3, 4, 5, 6, 7, 8, 9, 10, 11, 12 :: nat]) \<and> (2::int) < 8 \<and>
   (\<exists>w. select estimate_tokens [1, 2, 3, 4, 5, 6, 7, 8, 9, 10, 11, 12] 8 2 100000 = Inr w \<and>
        take 2 (messages w) = [1, 2] \<and>
        subseq (messages w) [1, 2, 3, 4, 5, 6, 7, 8, 9, 10, 11, 12])"
  using select_subsequence_and_preserved
    [of 2 estimate_tokens "[1, 2, 3, 4, 5, 6, 7, 8, 9, 10, 11, 12]" 8 100000]
  by simp

text \<open>
  With \<open>preserveFirst = maxMessages\<close> the count of recent messages is 0 and the slice
  \<^verbatim>\<open>messages[-0:]\<close> is the whole history, so the window repeats the preserved
  messages; a negative \<open>preserveFirst\<close> makes the two slices overlap in the same way.
\<close>

theorem select_subsequence_counterexample:
  "select estimate_tokens [1, 2, 3] 2 2 100000 =
     Inr \<lparr>messages = [1, 2, 1, 2, 3], considered = 3, kept = 5, removed = - 2,
          estimatedTokens = 34, truncated = False\<rparr> \<and>
   select estimate_tokens [1, 2, 3] 2 (- 1) 100000 =
     Inr \<lparr>messages = [1, 2, 1, 2, 3], considered = 3, kept = 5, removed = - 2,
          estimatedTokens = 34, truncated = False\<rparr> \<and>
   \<not> subseq [1, 2, 1, 2, 3] [1, 2, 3 :: nat]"
proof -
  have "select estimate_tokens [1, 2, 3] 2 2 100000 =
     Inr \<lparr>messages = [1, 2, 1, 2, 3], considered = 3, kept = 5, removed = - 2,
          estimatedTokens = 34, truncated = False\<rparr>"
    by code_simp
  moreover have "select estimate_tokens [1, 2, 3] 2 (- 1) 100000 =
     Inr \<lparr>messages = [1, 2, 1, 2, 3], considered = 3, kept = 5, removed = - 2,
          estimatedTokens = 34, truncated = False\<rparr>"
    by code_simp
  moreover have "\<not> subseq [1, 2, 1, 2, 3] [1, 2, 3 :: nat]"
    by simp
  ultimately show ?thesis by blast
qed

subsection \<open>Running the selection again\<close>

text \<open>
  Claim C3, as amended. For every history and every configuration with
  \<open>0 \<le> preserveFirst < maxMessages\<close>, the messages of the window are a fixed point:
  \<open>select\<close> on the window's messages under the same configuration returns the same
  messages with the same count and token estimate. The metadata is recomputed against
  the new input, so the second window reports nothing removed and \<open>truncated = false\<close>;
  the two windows are equal as values exactly when the first run removed nothing.
\<close>

theorem select_fixed_point:
  assumes "0 \<le> preserveFirst" "preserveFirst < maxMessages"
  shows "\<exists>w. select est h maxMessages preserveFirst maxTokens = Inr w \<and>
           select est (messages w) maxMessages preserveFirst maxTokens =
             Inr (w\<lparr>considered := kept w, removed := 0, truncated := False\<rparr>)"
proof -
  from apply_sliding_window_props [OF assms(1), of est maxTokens h maxMessages] assms(2)
  obtain r where r: "apply_sliding_window est maxTokens h maxMessages preserveFirst = Inr r"
    "int (length r) \<le> maxMessages"
    by blast
  from r(2) have "apply_sliding_window est maxTokens r maxMessages preserveFirst = Inr r"
    by (rule apply_sliding_window_fits)
  from select_Inr [OF r(1)] select_Inr [OF this] show ?thesis
    by simp
qed

theorem select_fixed_point_witness:
  "(0::int) \<le> 1 \<and> (1::int) < 2 \<and>
   (\<exists>w. select estimate_tokens [1, 2, 3] 2 1 100000 = Inr w \<and>
        select estimate_tokens (messages w) 2 1 100000 =
          Inr (w\<lparr>considered := kept w, removed := 0, truncated := False\<rparr>))"
  using select_fixed_point [of 1 2 estimate_tokens "[1, 2, 3]" 100000]
  by simp

text \<open>
  Three messages, at most two, the first preserved: the first run reports
  \<open>truncated = true\<close>, the run on its output \<open>truncated = false\<close>. With
  \<open>preserveFirst = maxMessages\<close> the message list itself grows on every run.
\<close>

theorem select_idempotence_counterexample:
  "select estimate_tokens [1, 2, 3] 2 1 100000 =
     Inr \<lparr>messages = [1, 3], considered = 3, kept = 2, removed = 1,
          estimatedTokens = 14, truncated = True\<rparr> \<and>
   select estimate_tokens [1, 3] 2 1 100000 =
     Inr \<lparr>messages = [1, 3], considered = 2, kept = 2, removed = 0,
          estimatedTokens = 14, truncated = False\<rparr> \<and>
   select estimate_tokens [1, 3] 2 1 100000 \<noteq> select estimate_tokens [1, 2, 3] 2 1 100000 \<and>
   select estimate_tokens [1, 2, 3] 2 2 100000 =
     Inr \<lparr>messages = [1, 2, 1, 2, 3], considered = 3, kept = 5, removed = - 2,
          estimatedTokens = 34, truncated = False\<rparr> \<and>
   select estimate_tokens [1, 2, 1, 2, 3] 2 2 100000 =
     Inr \<lparr>messages = [1, 2, 1, 2, 1, 2, 3], considered = 5, kept = 7, removed = - 2,
          estimatedTokens = 47, truncated = False\<rparr>"
proof -
  have a: "select estimate_tokens [1, 2, 3] 2 1 100000 =
     Inr \<lparr>messages = [1, 3], considered = 3, kept = 2, removed = 1,
          estimatedTokens = 14, truncated = True\<rparr>"
    by code_simp
  have b: "select estimate_tokens [1, 3] 2 1 100000 =
     Inr \<lparr>messages = [1, 3], considered = 2, kept = 2, removed = 0,
          estimatedTokens = 14, truncated = False\<rparr>"
    by code_simp
  have c: "select estimate_tokens [1, 3] 2 1 100000 \<noteq> select estimate_tokens [1, 2, 3] 2 1 100000"
    unfolding a b by simp
  have d: "select estimate_tokens [1, 2, 3] 2 2 100000 =
     Inr \<lparr>messages = [1, 2, 1, 2, 3], considered = 3, kept = 5, removed = - 2,
          estimatedTokens = 34, truncated = False\<rparr>"
    by code_simp
  have e: "select estimate_tokens [1, 2, 1, 2, 3] 2 2 100000 =
     Inr \<lparr>messages = [1, 2, 1, 2, 1, 2, 3], considered = 5, kept = 7, removed = - 2,
          estimatedTokens = 47, truncated = False\<rparr>"
    by code_simp
  from a b c d e show ?thesis by blast
qed

subsection \<open>Twenty-five messages, at most twenty\<close>

text \<open>
  Claim C4, as amended. For every history of 25 messages with \<open>maxMessages = 20\<close> and
  \<open>preserveFirst = 2\<close>, the window reports \<open>truncated = true\<close>, starts with messages 1 and
  2, is a subsequence of messages 1 to 2 followed by messages 8 to 25 (messages 3 to 7 are
  omitted), and has at least 4 messages. It is exactly those 20 messages when their
  estimate is within the token budget; when the estimate exceeds the budget the loop
  removes at least one more message and the window has fewer than 20.
\<close>

theorem select_scenario_25:
  assumes "length h = 25"
  shows "\<exists>w. select est h 20 2 maxTokens = Inr w \<and> truncated w \<and>
           take 2 (messages w) = take 2 h \<and>
           subseq (messages w) (take 2 h @ drop 7 h) \<and>
           4 \<le> length (messages w) \<and>
           (est (take 2 h @ drop 7 h) \<le> maxTokens \<longrightarrow> messages w = take 2 h @ drop 7 h) \<and>
           (maxTokens < est (take 2 h @ drop 7 h) \<longrightarrow> length (messages w) < 20)"
proof -
  define w0 where "w0 = take 2 h @ drop 7 h"
  have len0: "length w0 = 20"
    using assms by (simp add: w0_def)
  have w0: "slice_to h 2 @ slice_from h (- 18) = w0"
    using assms by (simp add: slice_to_def slice_from_def w0_def)
  have run: "apply_sliding_window est maxTokens h 20 2 = remove_from_middle est maxTokens 2 (est w0) w0"
    using assms by (simp add: apply_sliding_window_exceeds w0)
  from remove_from_middle_props [of 2 est maxTokens "est w0" w0]
  obtain r where r: "remove_from_middle est maxTokens 2 (est w0) w0 = Inr r" "subseq r w0"
    "take (nat 2) r = take (nat 2) w0" "length r \<le> length w0"
    "min (length w0) (nat 2 + 2) \<le> length r" "est w0 \<le> maxTokens \<longrightarrow> r = w0"
    "maxTokens < est w0 \<and> 2 + 2 < int (length w0) \<longrightarrow> length r < length w0"
    by auto
  have "take 2 r = take 2 h"
    using r(3) assms by (simp add: w0_def)
  moreover have "4 \<le> length r"
    using r(5) len0 by simp
  moreover have "length r < length h"
    using r(4) len0 assms by simp
  ultimately show ?thesis
    using select_Inr [of est maxTokens h 20 2 r] run r(1,2,6,7) len0
    unfolding w0_def [symmetric] by simp
qed

theorem select_scenario_25_witness:
  "length [1 ..< 26] = 25 \<and>
   470 < estimate_tokens (take 2 [1 ..< 26] @ drop 7 [1 ..< 26]) \<and>
   (\<exists>w. select estimate_tokens [1 ..< 26] 20 2 470 = Inr w \<and> truncated w \<and>
        take 2 (messages w) = take 2 [1 ..< 26] \<and>
        subseq (messages w) (take 2 [1 ..< 26] @ drop 7 [1 ..< 26]) \<and>
        4 \<le> length (messages w) \<and> length (messages w) < 20)"
proof -
  have len: "length [1 ..< 26] = 25"
    by simp
  have over: "470 < estimate_tokens (take 2 [1 ..< 26] @ drop 7 [1 ..< 26])"
    by code_simp
  from select_scenario_25 [OF len, of estimate_tokens 470] over len show ?thesis
    by blast
qed

text \<open>
  Messages of 1 to 25 words and a budget of 470 tokens: the 20 messages cost 479 tokens,
  the limit is exceeded, and the loop pops index \<open>2 + 18 div 2 = 11\<close> (the message of 17
  words): 19 messages remain.
\<close>

theorem select_scenario_25_counterexample:
  "length [1 ..< 26] = 25 \<and>
   470 < estimate_tokens (take 2 [1 ..< 26] @ drop 7 [1 ..< 26]) \<and>
   select estimate_tokens [1 ..< 26] 20 2 470 =
     Inr \<lparr>messages = [1, 2, 8, 9, 10, 11, 12, 13, 14, 15, 16, 18, 19, 20, 21, 22, 23, 24, 25],
          considered = 25, kept = 19, removed = 6, estimatedTokens = 452, truncated = True\<rparr>"
proof -
  have "length [1 ..< 26] = 25"
    by simp
  moreover have "470 < estimate_tokens (take 2 [1 ..< 26] @ drop 7 [1 ..< 26])"
    by code_simp
  moreover have "select estimate_tokens [1 ..< 26] 20 2 470 =
     Inr \<lparr>messages = [1, 2, 8, 9, 10, 11, 12, 13, 14, 15, 16, 18, 19, 20, 21, 22, 23, 24, 25],
          considered = 25, kept = 19, removed = 6, estimatedTokens = 452, truncated = True\<rparr>"
    by code_simp
  ultimately show ?thesis by blast
qed

subsection \<open>Invalid configurations\<close>

text \<open>
  Claim C5, as amended. For every history and every configuration with
  \<open>preserveFirst \<ge> 0\<close>, \<open>select\<close> returns a window and never raises. The function neither
  clamps \<open>preserveFirst\<close> nor treats \<open>maxMessages \<le> 0\<close> apart; what the window holds for
  such a configuration is left open here.
\<close>

theorem select_total_nonneg_preserve:
  "0 \<le> preserveFirst \<Longrightarrow> \<exists>w. select est h maxMessages preserveFirst maxTokens = Inr w"
  using apply_sliding_window_props [of preserveFirst est maxTokens h maxMessages]
  by (auto simp: select_def)

theorem select_total_nonneg_preserve_witness:
  "(0::int) \<le> 2 \<and> (\<exists>w. select estimate_tokens [1, 2, 3] 2 2 100000 = Inr w)"
  using select_total_nonneg_preserve [of 2 estimate_tokens "[1, 2, 3]" 2 100000]
  by simp

text \<open>
  No clamping: \<open>preserveFirst = maxMessages = 2\<close> gives five messages where the clamped
  \<open>preserveFirst = 1\<close> gives two. No empty window: \<open>maxMessages = 0\<close> returns all three
  messages with \<open>truncated = false\<close>. And a failure that surfaces: with
  \<open>preserveFirst = -5\<close> the loop pops index \<open>-2\<close> of a one-element list.
\<close>

theorem select_clamping_counterexample:
  "select estimate_tokens [1, 2, 3] 2 2 100000 =
     Inr \<lparr>messages = [1, 2, 1, 2, 3], considered = 3, kept = 5, removed = - 2,
          estimatedTokens = 34, truncated = False\<rparr> \<and>
   select estimate_tokens [1, 2, 3] 2 1 100000 =
     Inr \<lparr>messages = [1, 3], considered = 3, kept = 2, removed = 1,
          estimatedTokens = 14, truncated = True\<rparr> \<and>
   select estimate_tokens [1, 2, 3] 0 2 100000 =
     Inr \<lparr>messages = [1, 2, 3], considered = 3, kept = 3, removed = 0,
          estimatedTokens = 21, truncated = False\<rparr> \<and>
   select estimate_tokens [1] 0 (- 5) 0 = Inl IndexError"
proof -
  have "select estimate_tokens [1, 2, 3] 2 2 100000 =
     Inr \<lparr>messages = [1, 2, 1, 2, 3], considered = 3, kept = 5, removed = - 2,
          estimatedTokens = 34, truncated = False\<rparr>"
    by code_simp
  moreover have "select estimate_tokens [1, 2, 3] 2 1 100000 =
     Inr \<lparr>messages = [1, 3], considered = 3, kept = 2, removed = 1,
          estimatedTokens = 14, truncated = True\<rparr>"
    by code_simp
  moreover have "select estimate_tokens [1, 2, 3] 0 2 100000 =
     Inr \<lparr>messages = [1, 2, 3], considered = 3, kept = 3, removed = 0,
          estimatedTokens = 21, truncated = False\<rparr>"
    by code_simp
  moreover have "select estimate_tokens [1] 0 (- 5) 0 = Inl IndexError"
    by code_simp
  ultimately show ?thesis by blast
qed

subsection \<open>The token budget is not a postcondition\<close>

text \<open>
  Claim C6. There are inputs for which the estimated tokens of the returned window exceed
  \<open>maxTokens\<close>: on the path \<open>len(history) \<le> maxMessages\<close>, where no token check is made
  (three messages of 37 tokens under a budget of 10), and on the other path, where the
  loop stops at \<open>preserveFirst + 2\<close> messages whatever the total is (four messages of 35
  tokens under a budget of 10).
\<close>

theorem token_budget_not_enforced:
  "(\<exists>h maxMessages preserveFirst maxTokens w.
      int (length h) \<le> maxMessages \<and>
      select estimate_tokens h maxMessages preserveFirst maxTokens = Inr w \<and>
      maxTokens < estimatedTokens w) \<and>
   (\<exists>h maxMessages preserveFirst maxTokens w.
      maxMessages < int (length h) \<and>
      select estimate_tokens h maxMessages preserveFirst maxTokens = Inr w \<and>
      int (length (messages w)) = preserveFirst + 2 \<and>
      maxTokens < estimatedTokens w)"
proof (intro conjI)
  have "select estimate_tokens [5, 6, 7] 20 2 10 =
     Inr \<lparr>messages = [5, 6, 7], considered = 3, kept = 3, removed = 0,
          estimatedTokens = 37, truncated = False\<rparr>"
    by code_simp
  then have "int (length [5, 6, 7 :: nat]) \<le> 20 \<and>
      select estimate_tokens [5, 6, 7] 20 2 10 =
        Inr \<lparr>messages = [5, 6, 7], considered = 3, kept = 3, removed = 0,
             estimatedTokens = 37, truncated = False\<rparr> \<and>
      10 < estimatedTokens \<lparr>messages = [5, 6, 7 :: nat], considered = 3, kept = 3, removed = 0,
             estimatedTokens = 37, truncated = False\<rparr>"
    by simp
  then show "\<exists>h maxMessages preserveFirst maxTokens w.
      int (length h) \<le> maxMessages \<and>
      select estimate_tokens h maxMessages preserveFirst maxTokens = Inr w \<and>
      maxTokens < estimatedTokens w"
    by blast
next
  have "select estimate_tokens [1, 2, 3, 4, 5, 6] 5 2 10 =
     Inr \<lparr>messages = [1, 2, 4, 6], considered = 6, kept = 4, removed = 2,
          estimatedTokens = 35, truncated = True\<rparr>"
    by code_simp
  then have "5 < int (length [1, 2, 3, 4, 5, 6 :: nat]) \<and>
      select estimate_tokens [1, 2, 3, 4, 5, 6] 5 2 10 =
        Inr \<lparr>messages = [1, 2, 4, 6], considered = 6, kept = 4, removed = 2,
             estimatedTokens = 35, truncated = True\<rparr> \<and>
      int (length (messages \<lparr>messages = [1, 2, 4, 6 :: nat], considered = 6, kept = 4, removed = 2,
             estimatedTokens = 35, truncated = True\<rparr>)) = 2 + 2 \<and>
      10 < estimatedTokens \<lparr>messages = [1, 2, 4, 6 :: nat], considered = 6, kept = 4, removed = 2,
             estimatedTokens = 35, truncated = True\<rparr>"
    by simp
  then show "\<exists>h maxMessages preserveFirst maxTokens w.
      maxMessages < int (length h) \<and>
      select estimate_tokens h maxMessages preserveFirst maxTokens = Inr w \<and>
      int (length (messages w)) = preserveFirst + 2 \<and>
      maxTokens < estimatedTokens w"
    by blast
qed

section \<open>Properties of the response cache\<close>

subsection \<open>Auxiliary facts\<close>

lemma remdups_snoc: "remdups (xs @ [k]) = filter (\<lambda>x. x \<noteq> k) (remdups xs) @ [k]"
  by (induction xs) auto

lemma map_fst_touch: "map fst (touch k v es) = filter (\<lambda>x. x \<noteq> k) (map fst es) @ [k]"
  by (simp add: touch_def filter_map comp_def)

lemma map_of_touch: "map_of (touch k v es) k = Some v"
  by (induction es) (auto simp: touch_def)

lemma map_of_tl_touch:
  assumes "1 < length (touch k v es)"
  shows "map_of (tl (touch k v es)) k = Some v"
proof -
  from assms obtain f fs where f: "filter (\<lambda>e. fst e \<noteq> k) es = f # fs"
    by (cases "filter (\<lambda>e. fst e \<noteq> k) es") (auto simp: touch_def)
  have "set fs \<subseteq> set (filter (\<lambda>e. fst e \<noteq> k) es)"
    by (auto simp: f)
  then have "k \<notin> fst ` set fs"
    by auto
  then have "map_of (fs @ [(k, v)]) k = Some v"
    by (induction fs) auto
  then show ?thesis
    by (simp add: touch_def f)
qed

lemma get_after_put:
  assumes "0 < capacity c"
  shows "fst (cache_get (cache_put c k v) k) = Some v"
proof -
  have "map_of (entries (cache_put c k v)) k = Some v"
    using assms by (auto simp: cache_put_def Let_def map_of_touch intro!: map_of_tl_touch)
  then show ?thesis
    by (simp add: cache_get_def)
qed

lemma accessed_from_mono: "set tr \<subseteq> set (accessed_from tr ops)"
  by (induction tr ops rule: accessed_from.induct) auto

text \<open>
  As long as no more keys have been accessed than the cache holds, the keys of the cache
  are the accessed keys in the order of their last access.
\<close>

lemma run_keys:
  assumes "map fst (entries c) = remdups tr"
    and "card (set (accessed_from tr ops)) \<le> capacity c"
  shows "map fst (entries (run c ops)) = remdups (accessed_from tr ops) \<and>
         capacity (run c ops) = capacity c"
  using assms
proof (induction tr ops arbitrary: c rule: accessed_from.induct)
  case (1 tr)
  then show ?case by simp
next
  case (2 tr k ops)
  show ?case
  proof (cases "k \<in> set tr")
    case True
    then have "k \<in> fst ` set (entries c)"
      using 2(2) by (metis list.set_map set_remdups)
    then obtain v where v: "map_of (entries c) k = Some v"
      by (metis domD dom_map_of_conv_image_fst)
    then have c': "snd (cache_get c k) = c\<lparr>entries := touch k v (entries c)\<rparr>"
      by (simp add: cache_get_def)
    have "map fst (entries (snd (cache_get c k))) = remdups (tr @ [k])"
      by (simp add: c' map_fst_touch 2(2) remdups_snoc)
    with 2(1) [of "snd (cache_get c k)"] 2(3) True show ?thesis
      by (simp add: c')
  next
    case False
    then have "k \<notin> fst ` set (entries c)"
      using 2(2) by (metis list.set_map set_remdups)
    then have "map_of (entries c) k = None"
      by (simp add: map_of_eq_None_iff)
    then have "snd (cache_get c k) = c"
      by (simp add: cache_get_def)
    with 2 False show ?thesis by simp
  qed
next
  case (3 tr k v ops)
  have keys: "map fst (touch k v (entries c)) = remdups (tr @ [k])"
    by (simp add: map_fst_touch 3(2) remdups_snoc)
  have "length (touch k v (entries c)) = card (set (tr @ [k]))"
    by (metis keys length_map length_remdups_card_conv)
  also have "\<dots> \<le> card (set (accessed_from (tr @ [k]) ops))"
    by (intro card_mono accessed_from_mono) simp
  also have "\<dots> \<le> capacity c"
    using 3(3) by simp
  finally have c': "cache_put c k v = c\<lparr>entries := touch k v (entries c)\<rparr>"
    by (simp add: cache_put_def Let_def)
  with 3(1) [of "cache_put c k v"] 3(3) keys show ?case
    by simp
qed

lemma last_access_sorted:
  "sorted_wrt (\<lambda>a b. last_access tr a < last_access tr b) (remdups tr)"
proof (induction tr)
  case Nil
  then show ?case by simp
next
  case (Cons x xs)
  have "sorted_wrt (\<lambda>a b. last_access (x # xs) a < last_access (x # xs) b) (remdups xs)"
    using Cons by (rule sorted_wrt_mono_rel [rotated]) auto
  then show ?case by auto
qed

lemma least_recent_is_head:
  assumes "lra \<in> set tr"
    and "\<forall>k' \<in> set tr. k' \<noteq> lra \<longrightarrow> last_access tr lra < last_access tr k'"
  shows "hd (remdups tr) = lra"
proof (rule ccontr)
  assume neq: "hd (remdups tr) \<noteq> lra"
  from assms(1) obtain y ys where ys: "remdups tr = y # ys"
    by (cases "remdups tr") auto
  then have "y \<in> set tr"
    by (metis list.set_intros(1) set_remdups)
  with assms(2) neq ys have a: "last_access tr lra < last_access tr y"
    by simp
  from assms(1) neq ys have "lra \<in> set ys"
    by (metis list.sel(1) set_ConsD set_remdups)
  with last_access_sorted [of tr] ys have "last_access tr y < last_access tr lra"
    by simp
  with a show False by simp
qed

lemma set_tl_distinct: "distinct xs \<Longrightarrow> xs \<noteq> [] \<Longrightarrow> set (tl xs) = set xs - {hd xs}"
  by (cases xs) auto

lemma evict_least_recent:
  assumes n: "0 < n"
    and full: "card (set (accessed ops)) = n"
    and new: "knew \<notin> set (accessed ops)"
    and lra: "lra \<in> set (accessed ops)"
    and least: "\<forall>k' \<in> set (accessed ops). k' \<noteq> lra \<longrightarrow>
                 last_access (accessed ops) lra < last_access (accessed ops) k'"
  shows "fst ` set (entries (cache_put (run (cache_new n) ops) knew v)) =
           insert knew (set (accessed ops) - {lra})"
proof -
  define tr where "tr = accessed ops"
  define c0 :: "('a, 'b) response_cache" where "c0 = run (cache_new n) ops"
  have "map fst (entries c0) = remdups tr \<and> capacity c0 = capacity (cache_new n :: ('a, 'b) response_cache)"
    unfolding c0_def tr_def accessed_def
    by (rule run_keys) (use full in \<open>simp_all add: cache_new_def accessed_def\<close>)
  then have keys: "map fst (entries c0) = remdups tr" and cap: "capacity c0 = n"
    by (simp_all add: cache_new_def)
  have len: "length (remdups tr) = n"
    using full by (simp add: tr_def length_remdups_card_conv)
  with n have ne: "remdups tr \<noteq> []"
    by auto
  have "filter (\<lambda>x. x \<noteq> knew) (remdups tr) = remdups tr"
    using new by (auto simp: tr_def filter_id_conv)
  then have tkeys: "map fst (touch knew v (entries c0)) = remdups tr @ [knew]"
    by (simp add: map_fst_touch keys)
  then have "length (touch knew v (entries c0)) = Suc n"
    using len by (metis length_append_singleton length_map)
  then have "entries (cache_put c0 knew v) = tl (touch knew v (entries c0))"
    by (simp add: cache_put_def Let_def cap)
  then have "map fst (entries (cache_put c0 knew v)) = tl (remdups tr) @ [knew]"
    using tkeys ne by (simp add: map_tl)
  then have "fst ` set (entries (cache_put c0 knew v)) = insert knew (set (tl (remdups tr)))"
    by (metis Un_insert_right list.set(1) list.set(2) list.set_map set_append sup_bot.right_neutral)
  moreover have "set (tl (remdups tr)) = set tr - {hd (remdups tr)}"
    using set_tl_distinct [OF distinct_remdups ne] by simp
  moreover have "hd (remdups tr) = lra"
    using lra least unfolding tr_def by (rule least_recent_is_head)
  ultimately show ?thesis
    by (simp add: c0_def tr_def)
qed

subsection \<open>Read after write, and eviction\<close>

text \<open>
  Claim C7. In a cache of capacity \<open>n > 0\<close>, \<open>get(k)\<close> immediately after \<open>put(k, v)\<close>
  returns \<open>v\<close>, from every state of the cache. And after operations that wrote \<open>n\<close>
  distinct keys into a new cache, reading them in between at will, the write of one more
  key evicts the least recently accessed key, the one whose last read or write is the
  oldest: that key is absent afterwards, and the cache holds the new key and all the
  others. The two halves of the claim need a capacity of at least one entry: a cache of
  capacity 0 cannot both return the value just written and have evicted its key.
\<close>

theorem response_cache_lru:
  assumes "0 < n"
  shows "(capacity c = n \<longrightarrow> fst (cache_get (cache_put c k v) k) = Some v) \<and>
         (card (set (accessed ops)) = n \<and> knew \<notin> set (accessed ops) \<and>
          lra \<in> set (accessed ops) \<and>
          (\<forall>k' \<in> set (accessed ops). k' \<noteq> lra \<longrightarrow>
             last_access (accessed ops) lra < last_access (accessed ops) k') \<longrightarrow>
            lra \<notin> fst ` set (entries (cache_put (run (cache_new n) ops) knew v')) \<and>
            fst ` set (entries (cache_put (run (cache_new n) ops) knew v')) =
              insert knew (set (accessed ops) - {lra}))"
proof (intro conjI impI)
  assume "capacity c = n"
  with assms show "fst (cache_get (cache_put c k v) k) = Some v"
    by (simp add: get_after_put)
next
  assume h: "card (set (accessed ops)) = n \<and> knew \<notin> set (accessed ops) \<and>
          lra \<in> set (accessed ops) \<and>
          (\<forall>k' \<in> set (accessed ops). k' \<noteq> lra \<longrightarrow>
             last_access (accessed ops) lra < last_access (accessed ops) k')"
  then have eq: "fst ` set (entries (cache_put (run (cache_new n) ops) knew v')) =
      insert knew (set (accessed ops) - {lra})"
    using assms by (intro evict_least_recent) auto
  then show "fst ` set (entries (cache_put (run (cache_new n) ops) knew v')) =
      insert knew (set (accessed ops) - {lra})" .
  from h have "lra \<noteq> knew" by auto
  with eq show "lra \<notin> fst ` set (entries (cache_put (run (cache_new n) ops) knew v'))"
    by simp
qed

text \<open>
  Capacity 2: \<open>q1\<close> and \<open>q2\<close> are written, then \<open>q1\<close> is read. The write of \<open>q3\<close> evicts
  \<open>q2\<close>, not the older written \<open>q1\<close>.
\<close>

theorem response_cache_lru_witness:
  "(0::nat) < 2 \<and>
   fst (cache_get (cache_put (cache_new 2) ''q1'' ''a1'') ''q1'') = Some ''a1'' \<and>
   accessed [Put ''q1'' ''a1'', Put ''q2'' ''a2'', Get ''q1''] = [''q1'', ''q2'', ''q1''] \<and>
   last_access [''q1'', ''q2'', ''q1''] ''q2'' < last_access [''q1'', ''q2'', ''q1''] ''q1'' \<and>
   ''q2'' \<notin> fst ` set (entries (cache_put
      (run (cache_new 2) [Put ''q1'' ''a1'', Put ''q2'' ''a2'', Get ''q1'']) ''q3'' ''a3'')) \<and>
   fst ` set (entries (cache_put
      (run (cache_new 2) [Put ''q1'' ''a1'', Put ''q2'' ''a2'', Get ''q1'']) ''q3'' ''a3'')) =
     {''q3'', ''q1''}"
proof -
  define ops where "ops = [Put ''q1'' ''a1'', Put ''q2'' ''a2'', Get ''q1'']"
  have acc: "accessed ops = [''q1'', ''q2'', ''q1'']"
    by (simp add: accessed_def ops_def)
  have la: "last_access [''q1'', ''q2'', ''q1''] ''q2'' < last_access [''q1'', ''q2'', ''q1''] ''q1''"
    by simp
  have hyp: "card (set (accessed ops)) = 2 \<and> ''q3'' \<notin> set (accessed ops) \<and>
     ''q2'' \<in> set (accessed ops) \<and>
     (\<forall>k' \<in> set (accessed ops). k' \<noteq> ''q2'' \<longrightarrow>
        last_access (accessed ops) ''q2'' < last_access (accessed ops) k')"
    unfolding acc by (simp add: card_insert_if)
  have two: "(0::nat) < 2"
    by simp
  have cap: "capacity (cache_new 2 :: (string, string) response_cache) = 2"
    by (simp add: cache_new_def)
  have keys: "insert ''q3'' (set (accessed ops) - {''q2''}) = {''q3'', ''q1''}"
    unfolding acc by auto
  from response_cache_lru [OF two, of "cache_new 2" "''q1''" "''a1''" ops "''q3''" "''q2''" "''a3''"]
    cap hyp
  have "fst (cache_get (cache_put (cache_new 2) ''q1'' ''a1'') ''q1'') = Some ''a1'' \<and>
     ''q2'' \<notin> fst ` set (entries (cache_put (run (cache_new 2) ops) ''q3'' ''a3'')) \<and>
     fst ` set (entries (cache_put (run (cache_new 2) ops) ''q3'' ''a3'')) =
       insert ''q3'' (set (accessed ops) - {''q2''})"
    by blast
  then show ?thesis
    using acc la two unfolding keys unfolding ops_def by blast
qed

section \<open>Properties of the query router\<close>

text \<open>The two matchers compute the prefix and the contiguous-sublist relations.\<close>

lemma starts_with_prefix: "starts_with xs ys \<longleftrightarrow> prefix xs ys"
  by (induction xs ys rule: starts_with.induct) auto

lemma occurs_in_sublist: "occurs_in xs ys \<longleftrightarrow> sublist xs ys"
  by (induction ys) (auto simp: starts_with_prefix sublist_Cons_right)

lemma lower_char_idem: "lower_char (lower_char c) = lower_char c"
  by (auto simp: lower_char_def Let_def)

lemma lower_idem: "lower (lower q) = lower q"
  by (simp add: lower_def lower_char_idem)

text \<open>
  Claim C9. For every query \<open>q\<close>, \<open>route\<close> returns complex exactly when the lower-cased
  query contains an enumerated complex term or contains no enumerated simple term, and
  simple exactly when it contains a simple term and no complex term, so complex terms
  take precedence. \<open>show me the first 5 rows\<close> is simple and
  \<open>what's the correlation between age and salary?\<close> is complex. The classification
  depends on the lower-cased query only, and lower-casing a query does not change it.
\<close>

theorem route_classification:
  "(route q = Complex \<longleftrightarrow>
      (\<exists>t \<in> set complex_patterns. sublist (words_of t) (words_of (lower q))) \<or>
      \<not> (\<exists>t \<in> set simple_patterns. sublist (words_of t) (words_of (lower q)))) \<and>
   (route q = Simple \<longleftrightarrow>
      (\<exists>t \<in> set simple_patterns. sublist (words_of t) (words_of (lower q))) \<and>
      \<not> (\<exists>t \<in> set complex_patterns. sublist (words_of t) (words_of (lower q)))) \<and>
   route ''show me the first 5 rows'' = Simple \<and>
   route ''what's the correlation between age and salary?'' = Complex \<and>
   (lower q = lower q' \<longrightarrow> route q = route q') \<and>
   route (lower q) = route q"
proof (intro conjI)
  show "route q = Complex \<longleftrightarrow>
      (\<exists>t \<in> set complex_patterns. sublist (words_of t) (words_of (lower q))) \<or>
      \<not> (\<exists>t \<in> set simple_patterns. sublist (words_of t) (words_of (lower q)))"
    by (simp add: route_def Let_def list_ex_iff term_present_def occurs_in_sublist)
  show "route q = Simple \<longleftrightarrow>
      (\<exists>t \<in> set simple_patterns. sublist (words_of t) (words_of (lower q))) \<and>
      \<not> (\<exists>t \<in> set complex_patterns. sublist (words_of t) (words_of (lower q)))"
    by (simp add: route_def Let_def list_ex_iff term_present_def occurs_in_sublist)
  show "route ''show me the first 5 rows'' = Simple"
    by code_simp
  show "route ''what's the correlation between age and salary?'' = Complex"
    by code_simp
  show "lower q = lower q' \<longrightarrow> route q = route q'"
    by (simp add: route_def)
  show "route (lower q) = route q"
    by (simp add: route_def lower_idem)
qed

text \<open>The same query in mixed case: same normalised text, same class.\<close>

theorem route_classification_witness:
  "lower ''Show Me The FIRST 5 Rows'' = lower ''show me the first 5 rows'' \<and>
   route ''Show Me The FIRST 5 Rows'' = Simple \<and>
   route ''show me the first 5 rows'' = Simple \<and>
   route ''what's the correlation between age and salary?'' = Complex"
proof -
  have eq: "lower ''Show Me The FIRST 5 Rows'' = lower ''show me the first 5 rows''"
    by code_simp
  from route_classification [of "''Show Me The FIRST 5 Rows''" "''show me the first 5 rows''"] eq
  show ?thesis
    by simp
qed

subsection \<open>Sampling\<close>

lemma draw_Suc:
  assumes "rows \<noteq> []" "gen state = (r, state')"
  shows "draw gen state (Suc n) rows =
           (rows ! (r mod length rows) #
              fst (draw gen state' n (take (r mod length rows) rows @ drop (Suc (r mod length rows)) rows)),
            snd (draw gen state' n (take (r mod length rows) rows @ drop (Suc (r mod length rows)) rows)))"
  using assms by (simp add: Let_def split: prod.splits)

lemma length_draw: "length (fst (draw gen state n rows)) = min n (length rows)"
proof (induction n arbitrary: state rows)
  case 0
  then show ?case by simp
next
  case (Suc n)
  show ?case
  proof (cases "rows = []")
    case True
    then show ?thesis by simp
  next
    case False
    obtain r state' where g: "gen state = (r, state')"
      by (cases "gen state")
    define i where "i = r mod length rows"
    have i: "i < length rows"
      using False by (simp add: i_def)
    then have "length (take i rows @ drop (Suc i) rows) = length rows - 1"
      by simp
    then have "length (fst (draw gen state' n (take i rows @ drop (Suc i) rows))) = min n (length rows - 1)"
      by (simp add: Suc)
    then show ?thesis
      using i unfolding draw_Suc [of rows gen state r state', OF False g] i_def by simp
  qed
qed

lemma mset_remove_index:
  "i < length rows \<Longrightarrow> add_mset (rows ! i) (mset (take i rows @ drop (Suc i) rows)) = mset rows"
  by (metis add_mset_add_mset_same_iff append_take_drop_id id_take_nth_drop mset.simps(2) mset_append union_mset_add_mset_right)

lemma mset_draw: "mset (fst (draw gen state n rows)) \<subseteq># mset rows"
proof (induction n arbitrary: state rows)
  case 0
  then show ?case by simp
next
  case (Suc n)
  show ?case
  proof (cases "rows = []")
    case True
    then show ?thesis by simp
  next
    case False
    obtain r state' where g: "gen state = (r, state')"
      by (cases "gen state")
    define i where "i = r mod length rows"
    have i: "i < length rows"
      using False by (simp add: i_def)
    have "mset (fst (draw gen state' n (take i rows @ drop (Suc i) rows)))
        \<subseteq># mset (take i rows @ drop (Suc i) rows)"
      by (rule Suc)
    then have "add_mset (rows ! i) (mset (fst (draw gen state' n (take i rows @ drop (Suc i) rows))))
        \<subseteq># mset rows"
      using mset_remove_index [OF i] by (metis mset_subset_eq_add_mset_cancel)
    then show ?thesis
      unfolding draw_Suc [of rows gen state r state', OF False g] i_def by simp
  qed
qed

lemma hd_draw:
  assumes "0 < n" "rows \<noteq> []"
  shows "hd (fst (draw gen state n rows)) = rows ! (fst (gen state) mod length rows)"
proof -
  from assms(1) obtain k where n: "n = Suc k"
    by (cases n) auto
  obtain r state' where g: "gen state = (r, state')"
    by (cases "gen state")
  show ?thesis
    unfolding n draw_Suc [of rows gen state r state', OF assms(2) g] by (simp add: g)
qed

lemma sample_large:
  "max_dataframe_size < length df \<Longrightarrow>
     sample_dataframe_if_large gen seed max_dataframe_size df rng =
       ((fst (draw gen seed max_dataframe_size df), True), snd (draw gen seed max_dataframe_size df))"
  by (simp add: sample_dataframe_if_large_def split: prod.splits)

text \<open>
  Claim C10. For every dataset with more rows than the threshold, the complex path hands
  the analyzer a sample instead of the dataset and marks the result as sampled. The
  sample has exactly the threshold's number of rows, all of them rows of the dataset, none
  used more often than the dataset has it. Two samplings of the same dataset with the
  same seed give the same rows, whatever state the generator is in when each begins, so
  also when one follows the other. The rows are those the generator picks from the seed
  on: the first is the row at the first number drawn from the seed.
\<close>

theorem large_dataset_sampled:
  assumes "max_dataframe_size < length df"
  shows "sampled (fst (analyze_complex gen seed max_dataframe_size analyzer df query rng)) \<and>
         payload (fst (analyze_complex gen seed max_dataframe_size analyzer df query rng)) =
           analyzer (fst (fst (sample_dataframe_if_large gen seed max_dataframe_size df rng))) query \<and>
         length (fst (fst (sample_dataframe_if_large gen seed max_dataframe_size df rng))) =
           max_dataframe_size \<and>
         mset (fst (fst (sample_dataframe_if_large gen seed max_dataframe_size df rng))) \<subseteq># mset df \<and>
         fst (sample_dataframe_if_large gen seed max_dataframe_size df rng') =
           fst (sample_dataframe_if_large gen seed max_dataframe_size df rng) \<and>
         fst (sample_dataframe_if_large gen seed max_dataframe_size df
                (snd (sample_dataframe_if_large gen seed max_dataframe_size df rng))) =
           fst (sample_dataframe_if_large gen seed max_dataframe_size df rng) \<and>
         (0 < max_dataframe_size \<longrightarrow>
            hd (fst (fst (sample_dataframe_if_large gen seed max_dataframe_size df rng))) =
              df ! (fst (gen seed) mod length df))"
proof -
  from assms have ne: "df \<noteq> []"
    by auto
  show ?thesis
    using assms ne
    by (simp add: analyze_complex_def sample_large length_draw mset_draw hd_draw)
qed

text \<open>
  Five rows, a threshold of three, and the generator \<open>s \<mapsto> (s, (5 s + 3) mod 16)\<close>. From
  seed 1 it draws 1, 8, 11 and rows 20, 10, 50 are taken, with the generator found in
  state 7 or in state 11. From seed 2 other rows are taken.
\<close>

theorem large_dataset_sampled_witness:
  "(3::nat) < length [10, 20, 30, 40, 50 :: nat] \<and> (0::nat) < 3 \<and>
   sample_dataframe_if_large (\<lambda>s. (s, (5 * s + 3) mod 16)) 1 3 [10, 20, 30, 40, 50 :: nat] 7 =
     (([20, 10, 50], True), 10) \<and>
   sample_dataframe_if_large (\<lambda>s. (s, (5 * s + 3) mod 16)) 1 3 [10, 20, 30, 40, 50 :: nat] 11 =
     (([20, 10, 50], True), 10) \<and>
   sample_dataframe_if_large (\<lambda>s. (s, (5 * s + 3) mod 16)) 2 3 [10, 20, 30, 40, 50 :: nat] 7 =
     (([30, 20, 40], True), 7) \<and>
   analyze_complex (\<lambda>s. (s, (5 * s + 3) mod 16)) 1 3 (\<lambda>d q. length d)
      [10, 20, 30, 40, 50 :: nat] ''what is the trend?'' 7 =
     (\<lparr>payload = 3, sampled = True, analyzer_path = ''pandasai''\<rparr>, 10) \<and>
   [10, 20, 30, 40, 50 :: nat] ! (fst ((\<lambda>s. (s, (5 * s + 3) mod 16)) (1::nat)) mod 5) = 20"
proof -
  have big: "(3::nat) < length [10, 20, 30, 40, 50 :: nat]"
    by simp
  have a: "sample_dataframe_if_large (\<lambda>s. (s, (5 * s + 3) mod 16)) 1 3 [10, 20, 30, 40, 50 :: nat] 7 =
     (([20, 10, 50], True), 10)"
    by code_simp
  have b: "sample_dataframe_if_large (\<lambda>s. (s, (5 * s + 3) mod 16)) 2 3 [10, 20, 30, 40, 50 :: nat] 7 =
     (([30, 20, 40], True), 7)"
    by code_simp
  have c: "analyze_complex (\<lambda>s. (s, (5 * s + 3) mod 16)) 1 3 (\<lambda>d q. length d)
      [10, 20, 30, 40, 50 :: nat] ''what is the trend?'' 7 =
     (\<lparr>payload = 3, sampled = True, analyzer_path = ''pandasai''\<rparr>, 10)"
    by code_simp
  from large_dataset_sampled [OF big, of "\<lambda>s. (s, (5 * s + 3) mod 16)" 1 "\<lambda>d q. length d"
      "''what is the trend?''" 7 11]
  have "fst (sample_dataframe_if_large (\<lambda>s. (s, (5 * s + 3) mod 16)) 1 3 [10, 20, 30, 40, 50 :: nat] 11) =
      fst (sample_dataframe_if_large (\<lambda>s. (s, (5 * s + 3) mod 16)) 1 3 [10, 20, 30, 40, 50 :: nat] 7)"
    and "hd (fst (fst (sample_dataframe_if_large (\<lambda>s. (s, (5 * s + 3) mod 16)) 1 3
           [10, 20, 30, 40, 50 :: nat] 7))) =
         [10, 20, 30, 40, 50 :: nat] ! (fst ((\<lambda>s. (s, (5 * s + 3) mod 16)) (1::nat)) mod length [10, 20, 30, 40, 50 :: nat])"
    by simp_all
  moreover have "sample_dataframe_if_large (\<lambda>s. (s, (5 * s + 3) mod 16)) 1 3 [10, 20, 30, 40, 50 :: nat] 11 =
     (([20, 10, 50], True), 10)"
    by code_simp
  ultimately show ?thesis
    using big a b c by simp
qed

end
